theory Spec2Isabelle
  imports Complex_Main "HOL-Library.AList" "HOL-Library.Sublist"
begin

section \<open>Source trees (utils.py)\<close>

text \<open>
  The class \<open>Tree\<close> of utils.py: a value, a dictionary of children (insertion ordered,
  so an association list) and the flag \<open>is_leaf\<close>, which \<open>build_tree\<close> sets on the node
  that ends a word.
\<close>

datatype Tree = Tree (tree_value: string) (tree_children: "(char \<times> Tree) list") (tree_is_leaf: bool)

text \<open>
  One pass of the outer loop of \<open>build_tree\<close>: walk down from the root along the characters
  of the word, \<open>setdefault\<close> creating the missing child at the end of the dictionary, and
  mark the node reached.
\<close>

fun insert_word :: "string \<Rightarrow> Tree \<Rightarrow> Tree" where
  "insert_word [] (Tree v ch l) = Tree v ch True"
| "insert_word (c # cs) (Tree v ch l) =
     (case map_of ch c of
        None \<Rightarrow> Tree v (ch @ [(c, insert_word cs (Tree [c] [] False))]) l
      | Some sub \<Rightarrow> Tree v (AList.update c (insert_word cs sub) ch) l)"

definition build_tree :: "string list \<Rightarrow> Tree" where
  "build_tree words = fold insert_word words (Tree [] [] False)"

section \<open>Layout nodes (layout.py, class LayoutTree)\<close>

text \<open>
  Layout nodes are mutable objects that point at each other (parent, thread, ancestor), so
  they live in a store. An address is the path of sibling indices from the layout root; the
  constructor hands the address \<open>a @ [i]\<close> to the \<open>i\<close>-th child of the object at \<open>a\<close>.
  The store keeps one function per attribute of the class: \<open>xpos h a\<close> is the attribute
  \<open>x\<close> of the object at \<open>a\<close> in the store \<open>h\<close>. Floats are modelled as real numbers.
\<close>

type_synonym addr = "nat list"

record heap =
  tree :: "addr \<Rightarrow> Tree"
  children :: "addr \<Rightarrow> addr list"
  sibling_index :: "addr \<Rightarrow> nat"
  level :: "addr \<Rightarrow> int"
  parent :: "addr \<Rightarrow> addr option"
  thread :: "addr \<Rightarrow> addr option"
  ancestor :: "addr \<Rightarrow> addr"
  xpos :: "addr \<Rightarrow> real"
  ypos :: "addr \<Rightarrow> real"
  modv :: "addr \<Rightarrow> real"
  change :: "addr \<Rightarrow> real"
  shift :: "addr \<Rightarrow> real"

text \<open>
  The ownership structure (an object and the objects in its \<open>children\<close> list, recursively)
  never changes after construction; the traversals that recurse over \<open>children\<close> recurse
  over this tree of addresses.
\<close>

datatype ltree = LNode (addr_of: addr) (subtrees: "ltree list")

datatype error = AttributeError | IndexError | ZeroDivisionError | ValueError

text \<open>
  A computation either does not return (\<open>None\<close>), raises (\<open>Some (Inl e)\<close>) or returns
  (\<open>Some (Inr v)\<close>).
\<close>

type_synonym 'a res = "(error + 'a) option"

definition ok :: "'a \<Rightarrow> 'a res" where
  "ok v = Some (Inr v)"

definition raise :: "error \<Rightarrow> 'a res" where
  "raise e = Some (Inl e)"

definition res_bind :: "'a res \<Rightarrow> ('a \<Rightarrow> 'b res) \<Rightarrow> 'b res" where
  "res_bind m f = (case m of None \<Rightarrow> None | Some (Inl e) \<Rightarrow> Some (Inl e) | Some (Inr v) \<Rightarrow> f v)"

text \<open>
  The store before any object is built. What it holds at an address is never read before the
  constructor has written there.
\<close>

definition empty_heap :: heap where
  "empty_heap = \<lparr>tree = (\<lambda>_. Tree [] [] False), children = (\<lambda>_. []),
                  sibling_index = (\<lambda>_. 0), level = (\<lambda>_. 0), parent = (\<lambda>_. None),
                  thread = (\<lambda>_. None), ancestor = (\<lambda>a. a), xpos = (\<lambda>_. 0),
                  ypos = (\<lambda>_. 0), modv = (\<lambda>_. 0), change = (\<lambda>_. 0), shift = (\<lambda>_. 0)\<rparr>"

text \<open>
  \<open>LayoutTree.__init__\<close>, building the object at address \<open>a\<close>: the children are built
  first (only when \<open>level < level_limit - 1\<close>), then the attributes of the object are set.
\<close>

definition init_fields :: "heap \<Rightarrow> addr \<Rightarrow> Tree \<Rightarrow> addr list \<Rightarrow> nat \<Rightarrow> int \<Rightarrow> addr option \<Rightarrow> heap" where
  "init_fields h a t cs si lvl par =
     h\<lparr>tree := (tree h)(a := t), children := (children h)(a := cs),
       sibling_index := (sibling_index h)(a := si), level := (level h)(a := lvl),
       parent := (parent h)(a := par), thread := (thread h)(a := None),
       ancestor := (ancestor h)(a := a), xpos := (xpos h)(a := 0),
       ypos := (ypos h)(a := of_int lvl), modv := (modv h)(a := 0),
       change := (change h)(a := 0), shift := (shift h)(a := 0)\<rparr>"

fun LayoutTree_init :: "Tree \<Rightarrow> addr option \<Rightarrow> nat \<Rightarrow> int \<Rightarrow> int \<Rightarrow> addr \<Rightarrow> heap \<Rightarrow> ltree \<times> heap"
  and init_children :: "(char \<times> Tree) list \<Rightarrow> addr \<Rightarrow> nat \<Rightarrow> int \<Rightarrow> int \<Rightarrow> heap \<Rightarrow> ltree list \<times> heap"
where
  "LayoutTree_init (Tree v ch l) par si lvl level_limit a h =
     (case (if lvl < level_limit - 1
            then init_children ch a 0 (lvl + 1) level_limit h
            else ([], h)) of
        (cs, h1) \<Rightarrow> (LNode a cs, init_fields h1 a (Tree v ch l) (map addr_of cs) si lvl par))"
| "init_children [] a i lvl level_limit h = ([], h)"
| "init_children ((k, c) # rest) a i lvl level_limit h =
     (case LayoutTree_init c (Some a) i lvl level_limit (a @ [i]) h of
        (n, h1) \<Rightarrow>
          (case init_children rest a (Suc i) lvl level_limit h1 of
             (ns, h2) \<Rightarrow> (n # ns, h2)))"

subsection \<open>Properties of a layout node\<close>

definition left_sibling :: "heap \<Rightarrow> addr \<Rightarrow> error + addr option" where
  "left_sibling h a =
     (case parent h a of
        None \<Rightarrow> Inr None
      | Some p \<Rightarrow>
          if sibling_index h a > 0
          then (if sibling_index h a - 1 < length (children h p)
                then Inr (Some (children h p ! (sibling_index h a - 1)))
                else Inl IndexError)
          else Inr None)"

definition leftmost_sibling :: "heap \<Rightarrow> addr \<Rightarrow> error + addr option" where
  "leftmost_sibling h a =
     (case parent h a of
        None \<Rightarrow> Inr None
      | Some p \<Rightarrow> (case children h p of [] \<Rightarrow> Inl IndexError | c # _ \<Rightarrow> Inr (Some c)))"

definition is_leaf :: "heap \<Rightarrow> addr \<Rightarrow> bool" where
  "is_leaf h a = (children h a = [])"

definition next_left :: "heap \<Rightarrow> addr \<Rightarrow> addr option" where
  "next_left h a = (if is_leaf h a then thread h a else Some (hd (children h a)))"

definition next_right :: "heap \<Rightarrow> addr \<Rightarrow> addr option" where
  "next_right h a = (if is_leaf h a then thread h a else Some (last (children h a)))"

text \<open>\<open>boundary_box\<close> recurses over the children.\<close>

fun boundary_box :: "ltree \<Rightarrow> heap \<Rightarrow> real \<times> real \<times> real \<times> real"
  and boundary_box_children :: "ltree list \<Rightarrow> heap \<Rightarrow> real \<times> real \<times> real \<times> real \<Rightarrow> real \<times> real \<times> real \<times> real"
where
  "boundary_box (LNode a ts) h =
     (if ts = [] then (xpos h a, xpos h a, ypos h a, ypos h a)
      else boundary_box_children ts h (xpos h a, xpos h a, ypos h a, ypos h a))"
| "boundary_box_children [] h bb = bb"
| "boundary_box_children (t # ts) h (x0, x1, y0, y1) =
     (case boundary_box t h of
        (cx0, cx1, cy0, cy1) \<Rightarrow>
          boundary_box_children ts h (min x0 cx0, max x1 cx1, min y0 cy0, max y1 cy1))"

section \<open>The layout algorithm (buchheim.py)\<close>

definition ancestor_of :: "heap \<Rightarrow> addr \<Rightarrow> addr \<Rightarrow> addr \<Rightarrow> error + addr" where
  "ancestor_of h vil v default_ancestor =
     (case parent h v of
        None \<Rightarrow> Inl AttributeError
      | Some p \<Rightarrow>
          Inr (if ancestor h vil \<in> set (children h p) then ancestor h vil
               else default_ancestor))"

text \<open>
  \<open>_shift_subtrees\<close>: the five assignments in the order of the source; the division
  raises when the two sibling indices are equal.
\<close>

definition shift_subtrees :: "heap \<Rightarrow> addr \<Rightarrow> addr \<Rightarrow> real \<Rightarrow> error + heap" where
  "shift_subtrees h wl wr shift_amount =
     (let subtrees = int (sibling_index h wr) - int (sibling_index h wl);
          h1 = h\<lparr>shift := (shift h)(wr := shift h wr + shift_amount)\<rparr>
      in if subtrees = 0 then Inl ZeroDivisionError
         else
           let h2 = h1\<lparr>change := (change h1)(wr := change h1 wr - shift_amount / of_int subtrees)\<rparr>;
               h3 = h2\<lparr>change := (change h2)(wl := change h2 wl + shift_amount / of_int subtrees)\<rparr>;
               h4 = h3\<lparr>xpos := (xpos h3)(wr := xpos h3 wr + shift_amount)\<rparr>;
               h5 = h4\<lparr>modv := (modv h4)(wr := modv h4 wr + shift_amount)\<rparr>
           in Inr h5)"

text \<open>
  \<open>_shift_tree\<close>: the loop over \<open>root.children[::-1]\<close> with the running \<open>shift\<close> and
  \<open>change\<close> (here \<open>s\<close> and \<open>c\<close>).
\<close>

fun shift_tree_loop :: "addr list \<Rightarrow> real \<Rightarrow> real \<Rightarrow> heap \<Rightarrow> heap" where
  "shift_tree_loop [] s c h = h"
| "shift_tree_loop (w # ws) s c h =
     (let h1 = h\<lparr>xpos := (xpos h)(w := xpos h w + s)\<rparr>;
          h2 = h1\<lparr>modv := (modv h1)(w := modv h1 w + s)\<rparr>;
          c' = c + change h2 w;
          s' = s + (shift h2 w + c')
      in shift_tree_loop ws s' c' h2)"

definition shift_tree :: "heap \<Rightarrow> addr \<Rightarrow> heap" where
  "shift_tree h rt = shift_tree_loop (rev (children h rt)) 0 0 h"

subsection \<open>Apportion\<close>

record apportion_state =
  vil :: addr
  vir :: addr
  vol :: addr
  vor :: addr
  sil :: real
  sir :: real
  sol :: real
  sor :: real
  st_heap :: heap

definition apportion_cond :: "apportion_state \<Rightarrow> bool" where
  "apportion_cond s =
     (next_right (st_heap s) (vil s) \<noteq> None \<and> next_left (st_heap s) (vir s) \<noteq> None)"

text \<open>One pass through the body of the \<open>while\<close> loop of \<open>_apportion\<close>.\<close>

definition apportion_step :: "addr \<Rightarrow> addr \<Rightarrow> real \<Rightarrow> apportion_state \<Rightarrow> error + apportion_state" where
  "apportion_step v default_ancestor dx s =
     (let h = st_heap s;
          vil1 = the (next_right h (vil s));
          vir1 = the (next_left h (vir s))
      in case next_right h (vor s) of
           None \<Rightarrow> Inl AttributeError
         | Some vor1 \<Rightarrow>
             let h1 = h\<lparr>ancestor := (ancestor h)(vor1 := v)\<rparr>;
                 shift_amount = (xpos h1 vil1 + sil s) - (xpos h1 vir1 + sir s) + dx
             in case (if shift_amount > 0
                      then (case ancestor_of h1 vil1 v default_ancestor of
                              Inl e \<Rightarrow> Inl e
                            | Inr a \<Rightarrow>
                                (case shift_subtrees h1 a v shift_amount of
                                   Inl e \<Rightarrow> Inl e
                                 | Inr h2 \<Rightarrow> Inr (h2, sir s + shift_amount, sor s + shift_amount)))
                      else Inr (h1, sir s, sor s)) of
                  Inl e \<Rightarrow> Inl e
                | Inr (h2, sir1, sor1) \<Rightarrow>
                    (case next_left h (vol s) of
                       None \<Rightarrow> Inl AttributeError
                     | Some vol1 \<Rightarrow>
                         Inr \<lparr>vil = vil1, vir = vir1, vol = vol1, vor = vor1,
                              sil = sil s + modv h2 vil1, sir = sir1 + modv h2 vir1,
                              sol = sol s + modv h2 vol1, sor = sor1 + modv h2 vor1,
                              st_heap = h2\<rparr>))"

partial_function (option) apportion_loop :: "addr \<Rightarrow> addr \<Rightarrow> real \<Rightarrow> apportion_state \<Rightarrow> apportion_state res" where
  "apportion_loop v default_ancestor dx s =
     (if apportion_cond s
      then (case apportion_step v default_ancestor dx s of
              Inl e \<Rightarrow> Some (Inl e)
            | Inr s' \<Rightarrow> apportion_loop v default_ancestor dx s')
      else Some (Inr s))"

text \<open>What \<open>_apportion\<close> does after the loop: set a thread, and choose the default ancestor.\<close>

definition apportion_finish :: "addr \<Rightarrow> addr \<Rightarrow> apportion_state \<Rightarrow> addr \<times> heap" where
  "apportion_finish v default_ancestor s =
     (let h = st_heap s
      in if next_right h (vil s) \<noteq> None \<and> next_right h (vor s) = None
         then
           (let h1 = h\<lparr>thread := (thread h)(vor s := next_right h (vil s))\<rparr>;
                h2 = h1\<lparr>modv := (modv h1)(vor s := modv h1 (vor s) + (sil s - sor s))\<rparr>
            in (default_ancestor, h2))
         else
           (if next_left h (vir s) \<noteq> None \<and> next_left h (vol s) = None
            then
              (let h1 = h\<lparr>thread := (thread h)(vol s := next_left h (vir s))\<rparr>;
                   h2 = h1\<lparr>modv := (modv h1)(vol s := modv h1 (vol s) + (sir s - sol s))\<rparr>
               in (v, h2))
            else (v, h)))"

definition apportion :: "heap \<Rightarrow> addr \<Rightarrow> addr \<Rightarrow> real \<Rightarrow> (addr \<times> heap) res" where
  "apportion h v default_ancestor dx =
     (case left_sibling h v of
        Inl e \<Rightarrow> raise e
      | Inr None \<Rightarrow> ok (default_ancestor, h)
      | Inr (Some v_) \<Rightarrow>
          (case leftmost_sibling h v of
             Inl e \<Rightarrow> raise e
           | Inr None \<Rightarrow> raise AttributeError
           | Inr (Some vol0) \<Rightarrow>
               res_bind
                 (apportion_loop v default_ancestor dx
                    \<lparr>vil = v_, vir = v, vol = vol0, vor = v,
                     sil = modv h v_, sir = modv h v, sol = modv h vol0, sor = modv h v,
                     st_heap = h\<rparr>)
                 (\<lambda>s. ok (apportion_finish v default_ancestor s))))"

subsection \<open>The two walks\<close>

text \<open>
  \<open>_first_walk\<close>: the recursive call on a child takes the default \<open>dx = 1.0\<close>, the call of
  \<open>_apportion\<close> takes the \<open>dx\<close> of this call.
\<close>

fun first_walk :: "real \<Rightarrow> ltree \<Rightarrow> heap \<Rightarrow> heap res"
  and first_walk_children :: "real \<Rightarrow> ltree list \<Rightarrow> addr \<Rightarrow> heap \<Rightarrow> heap res"
where
  "first_walk dx (LNode a []) h =
     (case left_sibling h a of
        Inl e \<Rightarrow> raise e
      | Inr None \<Rightarrow> ok (h\<lparr>xpos := (xpos h)(a := 0)\<rparr>)
      | Inr (Some w) \<Rightarrow> ok (h\<lparr>xpos := (xpos h)(a := xpos h w + dx)\<rparr>))"
| "first_walk dx (LNode a (t # ts)) h =
     res_bind (first_walk_children dx (t # ts) (addr_of t) h) (\<lambda>h1.
       let h2 = shift_tree h1 a;
           midpoint = (xpos h2 (addr_of t) + xpos h2 (addr_of (last (t # ts)))) * (1 / 2)
       in case left_sibling h2 a of
            Inl e \<Rightarrow> raise e
          | Inr (Some w) \<Rightarrow>
              (let h3 = h2\<lparr>xpos := (xpos h2)(a := xpos h2 w + dx)\<rparr>
               in ok (h3\<lparr>modv := (modv h3)(a := xpos h3 a - midpoint)\<rparr>))
          | Inr None \<Rightarrow> ok (h2\<lparr>xpos := (xpos h2)(a := midpoint)\<rparr>))"
| "first_walk_children dx [] default_ancestor h = ok h"
| "first_walk_children dx (w # ws) default_ancestor h =
     res_bind (first_walk 1 w h) (\<lambda>h1.
       res_bind (apportion h1 (addr_of w) default_ancestor dx) (\<lambda>(da, h2).
         first_walk_children dx ws da h2))"

text \<open>
  \<open>_second_walk\<close> returns the least x seen so far; \<open>start_y\<close> and \<open>min_x\<close> may be
  \<open>None\<close>.
\<close>

fun second_walk :: "ltree \<Rightarrow> real \<Rightarrow> real option \<Rightarrow> real \<Rightarrow> real option \<Rightarrow> heap \<Rightarrow> real \<times> heap"
  and second_walk_children :: "ltree list \<Rightarrow> real \<Rightarrow> real \<Rightarrow> real \<Rightarrow> real \<Rightarrow> heap \<Rightarrow> real \<times> heap"
where
  "second_walk (LNode a ts) sh start_y dy min_x h =
     (let h1 = h\<lparr>xpos := (xpos h)(a := xpos h a + sh)\<rparr>
      in case (case start_y of
                 Some sy \<Rightarrow> (sy, h1\<lparr>ypos := (ypos h1)(a := sy)\<rparr>)
               | None \<Rightarrow> (ypos h1 a, h1)) of
           (sy, h2) \<Rightarrow>
             second_walk_children ts (sh + modv h2 a) (sy + dy) dy
               (case min_x of
                  None \<Rightarrow> xpos h2 a
                | Some m \<Rightarrow> if xpos h2 a < m then xpos h2 a else m)
               h2)"
| "second_walk_children [] sh sy dy mx h = (mx, h)"
| "second_walk_children (w # ws) sh sy dy mx h =
     (case second_walk w sh (Some sy) dy (Some mx) h of
        (mx1, h1) \<Rightarrow> second_walk_children ws sh sy dy mx1 h1)"

definition buchheim :: "ltree \<Rightarrow> heap \<Rightarrow> ((real \<times> real \<times> real \<times> real) \<times> heap) res" where
  "buchheim layout_tree h =
     res_bind (first_walk 1 layout_tree h) (\<lambda>h1.
       case second_walk layout_tree 0 None 1 None h1 of
         (mx, h2) \<Rightarrow> ok (boundary_box layout_tree h2, h2))"

section \<open>Extraction and axis transform (layout.py)\<close>

text \<open>
  The four results of \<open>extract_tree_layout\<close>. Python dictionaries keep insertion order and
  an assignment to a key that is present overwrites in place: association lists with
  \<open>AList.update\<close>.
\<close>

record 'k layout =
  branches :: "('k \<times> string) list"
  leaves :: "('k \<times> string) list"
  edges :: "('k \<times> 'k) list"
  positions :: "('k \<times> real \<times> real) list"

text \<open>The inner \<open>for child in l_tree.children\<close>.\<close>

fun extract_children :: "(addr \<Rightarrow> 'k) \<Rightarrow> 'k \<Rightarrow> ltree list \<Rightarrow> 'k layout \<times> ltree list \<Rightarrow> 'k layout \<times> ltree list" where
  "extract_children key curr_key [] (acc, next_q) = (acc, next_q)"
| "extract_children key curr_key (child # cs) (acc, next_q) =
     extract_children key curr_key cs
       (acc\<lparr>edges := edges acc @ [(curr_key, key (addr_of child))]\<rparr>, next_q @ [child])"

text \<open>The \<open>for l_tree in q\<close> of one level.\<close>

fun extract_level :: "(addr \<Rightarrow> 'k) \<Rightarrow> heap \<Rightarrow> ltree list \<Rightarrow> 'k layout \<times> ltree list \<Rightarrow> 'k layout \<times> ltree list" where
  "extract_level key h [] (acc, next_q) = (acc, next_q)"
| "extract_level key h (l_tree # q) (acc, next_q) =
     (let a = addr_of l_tree;
          curr_key = key a;
          acc1 = (if tree_is_leaf (tree h a)
                  then acc\<lparr>leaves := AList.update curr_key (tree_value (tree h a)) (leaves acc)\<rparr>
                  else acc\<lparr>branches := AList.update curr_key (tree_value (tree h a)) (branches acc)\<rparr>);
          acc2 = acc1\<lparr>positions := AList.update curr_key (xpos h a, ypos h a) (positions acc1)\<rparr>
      in extract_level key h q (extract_children key curr_key (subtrees l_tree) (acc2, next_q)))"

fun ltree_size :: "ltree \<Rightarrow> nat" where
  "ltree_size (LNode a ts) = Suc (sum_list (map ltree_size ts))"

lemma extract_children_queue:
  "snd (extract_children key k cs (acc, nq)) = nq @ cs"
  by (induction cs arbitrary: acc nq) auto

lemma extract_level_queue:
  "snd (extract_level key h q (acc, nq)) = nq @ concat (map subtrees q)"
proof (induction q arbitrary: acc nq)
  case Nil
  then show ?case by simp
next
  case (Cons t q)
  define acc2 where "acc2 =
    (if tree_is_leaf (tree h (addr_of t))
     then acc\<lparr>leaves := AList.update (key (addr_of t)) (tree_value (tree h (addr_of t))) (leaves acc)\<rparr>
     else acc\<lparr>branches := AList.update (key (addr_of t)) (tree_value (tree h (addr_of t))) (branches acc)\<rparr>)
    \<lparr>positions := AList.update (key (addr_of t)) (xpos h (addr_of t), ypos h (addr_of t))
       (positions (if tree_is_leaf (tree h (addr_of t))
     then acc\<lparr>leaves := AList.update (key (addr_of t)) (tree_value (tree h (addr_of t))) (leaves acc)\<rparr>
     else acc\<lparr>branches := AList.update (key (addr_of t)) (tree_value (tree h (addr_of t))) (branches acc)\<rparr>))\<rparr>"
  obtain acc' nq' where e:
    "extract_children key (key (addr_of t)) (subtrees t) (acc2, nq) = (acc', nq')"
    by (meson surj_pair)
  from e have "nq' = nq @ subtrees t"
    using extract_children_queue by (metis snd_conv)
  with e Cons.IH [of acc' nq'] show ?case
    by (simp add: Let_def acc2_def)
qed

lemma ltree_size_subtrees:
  "sum_list (map ltree_size (subtrees t)) < ltree_size t"
  by (cases t) simp

lemma ltree_size_concat_less:
  "q \<noteq> [] \<Longrightarrow> sum_list (map ltree_size (concat (map subtrees q))) < sum_list (map ltree_size q)"
proof (induction q)
  case Nil
  then show ?case by simp
next
  case (Cons t q)
  show ?case
  proof (cases "q = []")
    case True
    then show ?thesis using ltree_size_subtrees [of t] by simp
  next
    case False
    with Cons.IH ltree_size_subtrees [of t] show ?thesis by simp
  qed
qed

text \<open>The \<open>while q\<close> loop.\<close>

function extract_loop :: "(addr \<Rightarrow> 'k) \<Rightarrow> heap \<Rightarrow> ltree list \<Rightarrow> 'k layout \<Rightarrow> 'k layout" where
  "extract_loop key h q acc =
     (if q = [] then acc
      else (let (acc1, next_q) = extract_level key h q (acc, [])
            in extract_loop key h next_q acc1))"
  by pat_completeness auto
termination
proof (relation "measure (\<lambda>(key, h, q, acc). sum_list (map ltree_size q))")
  show "wf (measure (\<lambda>(key, h, q, acc). sum_list (map ltree_size q)))"
    by simp
next
  fix key :: "addr \<Rightarrow> 'k" and h :: heap and q :: "ltree list" and acc :: "'k layout"
    and xx :: "'k layout \<times> ltree list" and acc1 next_q
  assume q: "q \<noteq> []" and xx: "xx = extract_level key h q (acc, [])" and p: "(acc1, next_q) = xx"
  from xx p have "next_q = snd (extract_level key h q (acc, []))"
    by (metis snd_conv)
  then have "next_q = concat (map subtrees q)"
    by (simp add: extract_level_queue)
  with q show "((key, h, next_q, acc1), (key, h, q, acc)) \<in> measure (\<lambda>(key, h, q, acc). sum_list (map ltree_size q))"
    by (simp add: ltree_size_concat_less)
qed

definition extract_tree_layout :: "ltree list \<Rightarrow> (addr \<Rightarrow> 'k) \<Rightarrow> heap \<Rightarrow> 'k layout" where
  "extract_tree_layout q key h =
     extract_loop key h q \<lparr>branches = [], leaves = [], edges = [], positions = []\<rparr>"

text \<open>
  \<open>_transform_axes\<close>. The values of the dictionary become the rows of an array; \<open>np.dot\<close>
  multiplies each row by a 2x2 matrix. On an empty dictionary the array has one dimension
  only, and the column access, the product and the minimum raise.
\<close>

definition row_dot :: "real \<times> real \<Rightarrow> (real \<times> real) \<times> (real \<times> real) \<Rightarrow> real \<times> real" where
  "row_dot r m = (case (r, m) of ((x, y), ((m00, m01), (m10, m11))) \<Rightarrow>
                    (x * m00 + y * m10, x * m01 + y * m11))"

definition radial :: "real \<Rightarrow> real \<Rightarrow> real \<Rightarrow> real \<Rightarrow> real \<times> real \<Rightarrow> real \<times> real" where
  "radial x0 y0 r0 theta_unit r = (case r of (x, y) \<Rightarrow>
     (let rr = y - y0 + r0; theta = (x - x0) * theta_unit
      in (rr * cos theta, rr * sin theta)))"

text \<open>The radial branch, over the reals with \<open>pi\<close>, \<open>cos\<close> and \<open>sin\<close>.\<close>

definition radial_axes :: "(real \<times> real) list \<Rightarrow> (real \<times> real) list" where
  "radial_axes xy =
     (let x0 = Min (set (map fst xy)); y0 = Min (set (map snd xy));
          x1 = Max (set (map fst xy)); y1 = Max (set (map snd xy));
          r0 = (2 / 10) * (y1 - y0);
          theta_unit = 2 * pi / ((x1 - x0) + 1)
      in map (radial x0 y0 r0 theta_unit) xy)"

definition transform_axes :: "('k \<times> real \<times> real) list \<Rightarrow> string \<Rightarrow> error + ('k \<times> real \<times> real) list" where
  "transform_axes pos rankdir =
     (let xy = map snd pos
      in if rankdir = ''TB''
         then (if xy = [] then Inl IndexError
               else Inr (zip (map fst pos) (map (\<lambda>(x, y). (x, y * (- 1))) xy)))
         else if rankdir = ''LR''
         then (if xy = [] then Inl ValueError
               else Inr (zip (map fst pos) (map (\<lambda>r. row_dot r ((0, - 1), (1, 0))) xy)))
         else if rankdir = ''RL''
         then (if xy = [] then Inl ValueError
               else Inr (zip (map fst pos) (map (\<lambda>r. row_dot r ((0, - 1), (- 1, 0))) xy)))
         else if rankdir = ''RADIAL''
         then (if xy = [] then Inl ValueError
               else Inr (zip (map fst pos) (radial_axes xy)))
         else Inr (zip (map fst pos) xy))"

text \<open>
  \<open>render_tree\<close>: the layout root is built at address \<open>[]\<close> in an empty store, at level 0
  or, when the root is not kept, -1. The key function may read the store.
\<close>

definition render_tree :: "Tree \<Rightarrow> bool \<Rightarrow> int \<Rightarrow> string \<Rightarrow> (heap \<Rightarrow> addr \<Rightarrow> 'k) \<Rightarrow> 'k layout res" where
  "render_tree t keep_root depth_limit rankdir key =
     (case LayoutTree_init t None 0 (if keep_root then 0 else - 1) depth_limit [] empty_heap of
        (layout_tree, h0) \<Rightarrow> res_bind (buchheim layout_tree h0) (\<lambda>(bbox, h).
           let r = extract_tree_layout
                     (if keep_root then [layout_tree] else subtrees layout_tree) (key h) h
           in if rankdir \<noteq> ''BT''
              then (case transform_axes (positions r) rankdir of
                      Inl e \<Rightarrow> raise e
                    | Inr pos \<Rightarrow> ok (r\<lparr>positions := pos\<rparr>))
              else ok r))"

text \<open>
  The key function of tests/test_layout.py: the sibling indices from the layout root down
  to the node, in decimal, joined. The parents of the object at an address are the objects
  at its prefixes.
\<close>

fun digits :: "nat \<Rightarrow> string" where
  "digits n = (if n < 10 then [''0123456789'' ! n] else digits (n div 10) @ [''0123456789'' ! (n mod 10)])"

definition key_of_tree :: "heap \<Rightarrow> addr \<Rightarrow> string" where
  "key_of_tree h a = concat (map (\<lambda>p. digits (sibling_index h p)) (prefixes a))"

section \<open>Evaluating the definitions on concrete inputs\<close>

text \<open>
  The simplifier runs the definitions on concrete trees. The rules below make it run them
  in the order of the program: the argument of a binding is evaluated before its body is
  entered, and a store update is kept as a term of its own until it is looked up.
\<close>

lemma res_bind_simps:
  "res_bind None f = None"
  "res_bind (Some (Inl e)) f = Some (Inl e)"
  "res_bind (Some (Inr v)) f = f v"
  by (simp_all add: res_bind_def)

lemma res_bind_cong_weak: "m = m' \<Longrightarrow> res_bind m f = res_bind m' f"
  by simp

lemma map_cong_weak: "xs = ys \<Longrightarrow> map f xs = map f ys"
  by simp

lemma case_prod_cong_weak: "p = q \<Longrightarrow> case_prod f p = case_prod f q"
  by simp

definition upd :: "('a \<Rightarrow> 'b) \<Rightarrow> 'a \<Rightarrow> 'b \<Rightarrow> 'a \<Rightarrow> 'b" where
  "upd f a v = f(a := v)"

lemma fun_upd_conv_upd: "f(a := v) = upd f a v"
  by (simp add: upd_def)

lemma upd_apply: "upd f a v b = (if b = a then v else f b)"
  by (simp add: upd_def)

lemma upd_upd: "upd (upd f a v) a w = upd f a w"
  by (simp add: upd_def)

declare extract_loop.simps [simp del]

lemmas eval_defs = build_tree_def left_sibling_def leftmost_sibling_def is_leaf_def next_left_def
  next_right_def ancestor_of_def shift_subtrees_def [unfolded Let_def] shift_tree_def
  apportion_cond_def apportion_step_def [unfolded Let_def] apportion_loop.simps
  apportion_finish_def [unfolded Let_def] apportion_def buchheim_def ok_def raise_def
  res_bind_simps empty_heap_def init_fields_def extract_tree_layout_def
  transform_axes_def [unfolded Let_def] render_tree_def [unfolded Let_def] key_of_tree_def
  row_dot_def fun_upd_conv_upd upd_apply upd_upd
  shift_tree_loop.simps [unfolded Let_def] first_walk.simps [unfolded Let_def]
  second_walk.simps [unfolded Let_def] extract_level.simps [unfolded Let_def]
  extract_loop.simps [unfolded Let_def]

lemmas eval_dels = shift_tree_loop.simps(2) first_walk.simps(2) second_walk.simps
  extract_level.simps(2)

lemmas eval_congs = let_weak_cong res_bind_cong_weak case_prod_cong_weak map_cong_weak

section \<open>Extraction\<close>

text \<open>
  The nodes that \<open>extract_tree_layout\<close> visits, in the order of the visit: the queue, then
  the children of the queue, and so on. They are the nodes of the trees of the queue.
\<close>

function bfs :: "ltree list \<Rightarrow> ltree list" where
  "bfs q = (if q = [] then [] else q @ bfs (concat (map subtrees q)))"
  by pat_completeness auto
termination
  by (relation "measure (\<lambda>q. sum_list (map ltree_size q))") (simp_all add: ltree_size_concat_less)

declare bfs.simps [simp del]

definition record_node :: "(addr \<Rightarrow> 'k) \<Rightarrow> heap \<Rightarrow> ltree \<Rightarrow> 'k layout \<Rightarrow> 'k layout" where
  "record_node key h t acc =
     \<lparr>branches = (if tree_is_leaf (tree h (addr_of t)) then branches acc
                   else AList.update (key (addr_of t)) (tree_value (tree h (addr_of t))) (branches acc)),
      leaves = (if tree_is_leaf (tree h (addr_of t))
                then AList.update (key (addr_of t)) (tree_value (tree h (addr_of t))) (leaves acc)
                else leaves acc),
      edges = edges acc @ map (\<lambda>c. (key (addr_of t), key (addr_of c))) (subtrees t),
      positions = AList.update (key (addr_of t)) (xpos h (addr_of t), ypos h (addr_of t)) (positions acc)\<rparr>"

lemma extract_children_eq:
  "extract_children key k cs (acc, nq) =
     (acc\<lparr>edges := edges acc @ map (\<lambda>c. (k, key (addr_of c))) cs\<rparr>, nq @ cs)"
  by (induction cs arbitrary: acc nq) auto

lemma extract_level_eq:
  "extract_level key h q (acc, nq) = (fold (record_node key h) q acc, nq @ concat (map subtrees q))"
proof (induction q arbitrary: acc nq)
  case Nil
  then show ?case by simp
next
  case (Cons t q)
  have "extract_level key h (t # q) (acc, nq)
      = extract_level key h q (record_node key h t acc, nq @ subtrees t)"
    by (cases acc) (simp add: Let_def extract_children_eq record_node_def)
  then show ?case
    by (simp add: Cons.IH del: extract_level.simps)
qed

lemma extract_loop_eq:
  "extract_loop key h q acc = fold (record_node key h) (bfs q) acc"
proof (induction key h q acc rule: extract_loop.induct)
  case (1 key h q acc)
  show ?case
  proof (cases "q = []")
    case True
    then show ?thesis by (simp add: extract_loop.simps bfs.simps)
  next
    case False
    have "extract_loop key h q acc
        = extract_loop key h (concat (map subtrees q)) (fold (record_node key h) q acc)"
      using False by (subst extract_loop.simps) (simp add: extract_level_eq)
    also have "\<dots> = fold (record_node key h) (bfs (concat (map subtrees q))) (fold (record_node key h) q acc)"
      using False by (intro "1.IH" [OF False]) (simp_all add: extract_level_eq)
    also have "\<dots> = fold (record_node key h) (bfs q) acc"
      using False by (subst (2) bfs.simps) simp
    finally show ?thesis .
  qed
qed


fun nodes :: "ltree \<Rightarrow> ltree list" where
  "nodes (LNode a ts) = LNode a ts # concat (map nodes ts)"

lemma self_in_nodes: "t \<in> set (nodes t)"
  by (cases t) simp

lemma nodes_subtrees: "c \<in> set (subtrees t) \<Longrightarrow> set (nodes c) \<subseteq> set (nodes t)"
  by (cases t) auto

lemma nodes_trans: "n \<in> set (nodes t) \<Longrightarrow> set (nodes n) \<subseteq> set (nodes t)"
proof (induction t rule: nodes.induct)
  case (1 a ts)
  from "1.prems" consider "n = LNode a ts" | u where "u \<in> set ts" "n \<in> set (nodes u)"
    by auto
  then show ?case
  proof cases
    case 1
    then show ?thesis by simp
  next
    case 2
    with "1.IH" have "set (nodes n) \<subseteq> set (nodes u)" by blast
    with 2 show ?thesis by auto
  qed
qed

lemma nodes_closed:
  assumes "\<And>u c. u \<in> S \<Longrightarrow> c \<in> set (subtrees u) \<Longrightarrow> c \<in> S"
  shows "t \<in> S \<Longrightarrow> n \<in> set (nodes t) \<Longrightarrow> n \<in> S"
proof (induction t rule: nodes.induct)
  case (1 a ts)
  from "1.prems"(2) consider "n = LNode a ts" | u where "u \<in> set ts" "n \<in> set (nodes u)"
    by auto
  then show ?case
  proof cases
    case 1
    with "1.prems" show ?thesis by simp
  next
    case 2
    have "u \<in> S" using assms [OF "1.prems"(1)] 2(1) by simp
    with "1.IH" 2 show ?thesis by blast
  qed
qed

lemma queue_in_bfs: "set q \<subseteq> set (bfs q)"
  by (subst bfs.simps) auto

lemma bfs_subtrees: "t \<in> set (bfs q) \<Longrightarrow> c \<in> set (subtrees t) \<Longrightarrow> c \<in> set (bfs q)"
proof (induction q rule: bfs.induct)
  case (1 q)
  show ?case
  proof (cases "q = []")
    case True
    with "1.prems" show ?thesis by (simp add: bfs.simps)
  next
    case False
    have eq: "bfs q = q @ bfs (concat (map subtrees q))"
      using False by (subst bfs.simps) simp
    show ?thesis
    proof (cases "t \<in> set q")
      case True
      with "1.prems"(2) have "c \<in> set (concat (map subtrees q))" by auto
      then have "c \<in> set (bfs (concat (map subtrees q)))"
        using queue_in_bfs by blast
      with eq show ?thesis by simp
    next
      case nin: False
      with "1.prems"(1) eq have "t \<in> set (bfs (concat (map subtrees q)))" by simp
      from "1.IH" [OF False this "1.prems"(2)] eq show ?thesis by simp
    qed
  qed
qed

lemma bfs_in_nodes: "t \<in> set (bfs q) \<Longrightarrow> \<exists>u \<in> set q. t \<in> set (nodes u)"
proof (induction q rule: bfs.induct)
  case (1 q)
  show ?case
  proof (cases "q = []")
    case True
    with "1.prems" show ?thesis by (simp add: bfs.simps)
  next
    case False
    have eq: "bfs q = q @ bfs (concat (map subtrees q))"
      using False by (subst bfs.simps) simp
    show ?thesis
    proof (cases "t \<in> set q")
      case True
      then show ?thesis using self_in_nodes by blast
    next
      case nin: False
      with "1.prems"(1) eq have "t \<in> set (bfs (concat (map subtrees q)))" by simp
      from "1.IH" [OF False this] obtain c where c: "c \<in> set (concat (map subtrees q))" "t \<in> set (nodes c)"
        by blast
      then obtain u where u: "u \<in> set q" "c \<in> set (subtrees u)" by auto
      with c nodes_subtrees show ?thesis by blast
    qed
  qed
qed

lemma set_bfs: "set (bfs q) = (\<Union>u \<in> set q. set (nodes u))"
proof
  show "set (bfs q) \<subseteq> (\<Union>u \<in> set q. set (nodes u))"
    using bfs_in_nodes by blast
next
  show "(\<Union>u \<in> set q. set (nodes u)) \<subseteq> set (bfs q)"
  proof
    fix n assume "n \<in> (\<Union>u \<in> set q. set (nodes u))"
    then obtain u where u: "u \<in> set q" "n \<in> set (nodes u)" by blast
    have "u \<in> set (bfs q)" using u(1) queue_in_bfs by blast
    then show "n \<in> set (bfs q)"
      using nodes_closed [of "set (bfs q)" u n] bfs_subtrees u(2) by blast
  qed
qed


lemma record_node_simps:
  "positions (record_node key h t acc)
     = AList.update (key (addr_of t)) (xpos h (addr_of t), ypos h (addr_of t)) (positions acc)"
  "edges (record_node key h t acc)
     = edges acc @ map (\<lambda>c. (key (addr_of t), key (addr_of c))) (subtrees t)"
  "leaves (record_node key h t acc)
     = (if tree_is_leaf (tree h (addr_of t))
        then AList.update (key (addr_of t)) (tree_value (tree h (addr_of t))) (leaves acc)
        else leaves acc)"
  "branches (record_node key h t acc)
     = (if tree_is_leaf (tree h (addr_of t)) then branches acc
        else AList.update (key (addr_of t)) (tree_value (tree h (addr_of t))) (branches acc))"
  by (simp_all add: record_node_def)

lemma fold_record_positions_keys:
  "fst ` set (positions (fold (record_node key h) ts acc))
     = fst ` set (positions acc) \<union> key ` addr_of ` set ts"
  by (induction ts arbitrary: acc) (auto simp: record_node_simps AList.dom_update)

lemma fold_record_leaves_keys:
  "fst ` set (leaves (fold (record_node key h) ts acc))
     = fst ` set (leaves acc) \<union> key ` addr_of ` {t \<in> set ts. tree_is_leaf (tree h (addr_of t))}"
  by (induction ts arbitrary: acc) (auto simp: record_node_simps AList.dom_update)

lemma fold_record_branches_keys:
  "fst ` set (branches (fold (record_node key h) ts acc))
     = fst ` set (branches acc) \<union> key ` addr_of ` {t \<in> set ts. \<not> tree_is_leaf (tree h (addr_of t))}"
  by (induction ts arbitrary: acc) (auto simp: record_node_simps AList.dom_update)

lemma fold_record_edges:
  "edges (fold (record_node key h) ts acc)
     = edges acc @ concat (map (\<lambda>t. map (\<lambda>c. (key (addr_of t), key (addr_of c))) (subtrees t)) ts)"
  by (induction ts arbitrary: acc) (auto simp: record_node_simps)

lemma fold_record_distinct:
  "distinct (map fst (positions acc)) \<Longrightarrow> distinct (map fst (positions (fold (record_node key h) ts acc)))"
  "distinct (map fst (leaves acc)) \<Longrightarrow> distinct (map fst (leaves (fold (record_node key h) ts acc)))"
  "distinct (map fst (branches acc)) \<Longrightarrow> distinct (map fst (branches (fold (record_node key h) ts acc)))"
  by (induction ts arbitrary: acc) (auto simp: record_node_simps AList.distinct_update)

lemma fold_record_positions_map:
  "map_of (positions (fold (record_node key h) ts acc))
     = map_of (positions acc)
         ++ map_of (rev (map (\<lambda>t. (key (addr_of t), (xpos h (addr_of t), ypos h (addr_of t)))) ts))"
proof (induction ts arbitrary: acc)
  case Nil
  then show ?case by simp
next
  case (Cons t ts)
  show ?case
    by (rule ext)
       (simp add: Cons.IH record_node_simps AList.update_conv' map_add_def split: option.splits)
qed


lemma fold_record_leaves_map:
  "map_of (leaves (fold (record_node key h) ts acc))
     = map_of (leaves acc)
         ++ map_of (rev (map (\<lambda>t. (key (addr_of t), tree_value (tree h (addr_of t))))
                          (filter (\<lambda>t. tree_is_leaf (tree h (addr_of t))) ts)))"
proof (induction ts arbitrary: acc)
  case Nil
  then show ?case by simp
next
  case (Cons t ts)
  show ?case
    by (rule ext)
       (simp add: Cons.IH record_node_simps AList.update_conv' map_add_def split: option.splits)
qed

lemma fold_record_branches_map:
  "map_of (branches (fold (record_node key h) ts acc))
     = map_of (branches acc)
         ++ map_of (rev (map (\<lambda>t. (key (addr_of t), tree_value (tree h (addr_of t))))
                          (filter (\<lambda>t. \<not> tree_is_leaf (tree h (addr_of t))) ts)))"
proof (induction ts arbitrary: acc)
  case Nil
  then show ?case by simp
next
  case (Cons t ts)
  show ?case
    by (rule ext)
       (simp add: Cons.IH record_node_simps AList.update_conv' map_add_def split: option.splits)
qed


lemma update_fresh: "k \<notin> fst ` set al \<Longrightarrow> AList.update k v al = al @ [(k, v)]"
  by (induction al) auto

definition empty_layout :: "'k layout" where
  "empty_layout = \<lparr>branches = [], leaves = [], edges = [], positions = []\<rparr>"

lemma fold_record_exact:
  assumes "distinct (map (\<lambda>t. key (addr_of t)) ts)"
  shows "fold (record_node key h) ts empty_layout =
    \<lparr>branches = map (\<lambda>t. (key (addr_of t), tree_value (tree h (addr_of t))))
                  (filter (\<lambda>t. \<not> tree_is_leaf (tree h (addr_of t))) ts),
     leaves = map (\<lambda>t. (key (addr_of t), tree_value (tree h (addr_of t))))
                (filter (\<lambda>t. tree_is_leaf (tree h (addr_of t))) ts),
     edges = concat (map (\<lambda>t. map (\<lambda>c. (key (addr_of t), key (addr_of c))) (subtrees t)) ts),
     positions = map (\<lambda>t. (key (addr_of t), (xpos h (addr_of t), ypos h (addr_of t)))) ts\<rparr>"
  using assms
proof (induction ts rule: rev_induct)
  case Nil
  then show ?case by (simp add: empty_layout_def)
next
  case (snoc t ts)
  from snoc.prems have d: "distinct (map (\<lambda>t. key (addr_of t)) ts)"
    and fresh: "key (addr_of t) \<notin> (\<lambda>t. key (addr_of t)) ` set ts"
    by auto
  have f1: "key (addr_of t) \<notin> fst ` set (map (\<lambda>t. (key (addr_of t), (xpos h (addr_of t), ypos h (addr_of t)))) ts)"
    using fresh by (auto simp: image_iff)
  have f2: "key (addr_of t) \<notin> fst ` set (map (\<lambda>t. (key (addr_of t), tree_value (tree h (addr_of t))))
                  (filter P ts))" for P
    using fresh by (auto simp: image_iff)
  have "fold (record_node key h) (ts @ [t]) empty_layout
      = record_node key h t (fold (record_node key h) ts empty_layout)"
    by simp
  also have "\<dots> = record_node key h t
    \<lparr>branches = map (\<lambda>t. (key (addr_of t), tree_value (tree h (addr_of t))))
                  (filter (\<lambda>t. \<not> tree_is_leaf (tree h (addr_of t))) ts),
     leaves = map (\<lambda>t. (key (addr_of t), tree_value (tree h (addr_of t))))
                (filter (\<lambda>t. tree_is_leaf (tree h (addr_of t))) ts),
     edges = concat (map (\<lambda>t. map (\<lambda>c. (key (addr_of t), key (addr_of c))) (subtrees t)) ts),
     positions = map (\<lambda>t. (key (addr_of t), (xpos h (addr_of t), ypos h (addr_of t)))) ts\<rparr>"
    by (simp only: snoc.IH [OF d])
  also have "\<dots> =
    \<lparr>branches = map (\<lambda>t. (key (addr_of t), tree_value (tree h (addr_of t))))
                  (filter (\<lambda>t. \<not> tree_is_leaf (tree h (addr_of t))) (ts @ [t])),
     leaves = map (\<lambda>t. (key (addr_of t), tree_value (tree h (addr_of t))))
                (filter (\<lambda>t. tree_is_leaf (tree h (addr_of t))) (ts @ [t])),
     edges = concat (map (\<lambda>t. map (\<lambda>c. (key (addr_of t), key (addr_of c))) (subtrees t)) (ts @ [t])),
     positions = map (\<lambda>t. (key (addr_of t), (xpos h (addr_of t), ypos h (addr_of t)))) (ts @ [t])\<rparr>"
    by (simp add: record_node_def update_fresh [OF f1] update_fresh [OF f2])
  finally show ?case .
qed

lemma extract_tree_layout_eq:
  "extract_tree_layout q key h = fold (record_node key h) (bfs q) empty_layout"
  by (simp add: extract_tree_layout_def extract_loop_eq empty_layout_def)

text \<open>
  C7. When the id function is injective on the visited nodes, the keys of the branches
  and of the leaves are disjoint, together they are the ids of the visited nodes, no key
  appears twice in either dictionary, and both ends of every edge are keys of the
  positions.
\<close>

theorem extract_keys_partition:
  assumes "inj_on key (addr_of ` (\<Union>t \<in> set q. set (nodes t)))"
  shows "fst ` set (branches (extract_tree_layout q key h))
           \<inter> fst ` set (leaves (extract_tree_layout q key h)) = {}
       \<and> fst ` set (branches (extract_tree_layout q key h))
           \<union> fst ` set (leaves (extract_tree_layout q key h))
           = key ` addr_of ` (\<Union>t \<in> set q. set (nodes t))
       \<and> distinct (map fst (branches (extract_tree_layout q key h)))
       \<and> distinct (map fst (leaves (extract_tree_layout q key h)))
       \<and> (\<forall>(p, c) \<in> set (edges (extract_tree_layout q key h)).
             p \<in> fst ` set (positions (extract_tree_layout q key h))
           \<and> c \<in> fst ` set (positions (extract_tree_layout q key h)))"
proof -
  let ?N = "\<Union>t \<in> set q. set (nodes t)"
  have N: "set (bfs q) = ?N" by (rule set_bfs)
  have br: "fst ` set (branches (extract_tree_layout q key h))
      = key ` addr_of ` {t \<in> ?N. \<not> tree_is_leaf (tree h (addr_of t))}"
    by (simp add: extract_tree_layout_eq fold_record_branches_keys empty_layout_def N)
  have lv: "fst ` set (leaves (extract_tree_layout q key h))
      = key ` addr_of ` {t \<in> ?N. tree_is_leaf (tree h (addr_of t))}"
    by (simp add: extract_tree_layout_eq fold_record_leaves_keys empty_layout_def N)
  have ps: "fst ` set (positions (extract_tree_layout q key h)) = key ` addr_of ` ?N"
    by (simp add: extract_tree_layout_eq fold_record_positions_keys empty_layout_def N)
  have disj: "fst ` set (branches (extract_tree_layout q key h))
           \<inter> fst ` set (leaves (extract_tree_layout q key h)) = {}"
  proof (rule ccontr)
    assume "\<not> ?thesis"
    then obtain k where "k \<in> fst ` set (branches (extract_tree_layout q key h))"
      "k \<in> fst ` set (leaves (extract_tree_layout q key h))" by blast
    then obtain t u where t: "t \<in> ?N" "\<not> tree_is_leaf (tree h (addr_of t))" "k = key (addr_of t)"
      and u: "u \<in> ?N" "tree_is_leaf (tree h (addr_of u))" "k = key (addr_of u)"
      unfolding br lv by blast
    from t u have "key (addr_of t) = key (addr_of u)" by simp
    with assms t(1) u(1) have "addr_of t = addr_of u"
      by (meson image_eqI inj_on_eq_iff)
    with t(2) u(2) show False by simp
  qed
  have un: "fst ` set (branches (extract_tree_layout q key h))
           \<union> fst ` set (leaves (extract_tree_layout q key h)) = key ` addr_of ` ?N"
    unfolding br lv by blast
  have d: "distinct (map fst (branches (extract_tree_layout q key h)))"
     "distinct (map fst (leaves (extract_tree_layout q key h)))"
    by (simp_all add: extract_tree_layout_eq fold_record_distinct empty_layout_def)
  have ed: "\<forall>(p, c) \<in> set (edges (extract_tree_layout q key h)).
             p \<in> fst ` set (positions (extract_tree_layout q key h))
           \<and> c \<in> fst ` set (positions (extract_tree_layout q key h))"
  proof -
    have "p \<in> key ` addr_of ` ?N \<and> c \<in> key ` addr_of ` ?N"
      if "(p, c) \<in> set (edges (extract_tree_layout q key h))" for p c
    proof -
      from that obtain t u where "t \<in> set (bfs q)" "u \<in> set (subtrees t)"
        "p = key (addr_of t)" "c = key (addr_of u)"
        by (auto simp: extract_tree_layout_eq fold_record_edges empty_layout_def)
      moreover from this have "u \<in> set (bfs q)" using bfs_subtrees by blast
      ultimately show ?thesis unfolding N [symmetric] by blast
    qed
    then show ?thesis unfolding ps by blast
  qed
  from disj un d ed show ?thesis by blast
qed


text \<open>A two-node chain with the address as id.\<close>

theorem extract_keys_partition_witness:
  "inj_on (\<lambda>a. a) (addr_of ` (\<Union>t \<in> set [LNode [0] [LNode [0, 0] []]]. set (nodes t)))
   \<and> fst ` set (branches (extract_tree_layout [LNode [0] [LNode [0, 0] []]] (\<lambda>a. a) empty_heap))
           \<inter> fst ` set (leaves (extract_tree_layout [LNode [0] [LNode [0, 0] []]] (\<lambda>a. a) empty_heap)) = {}
   \<and> fst ` set (branches (extract_tree_layout [LNode [0] [LNode [0, 0] []]] (\<lambda>a. a) empty_heap))
           \<union> fst ` set (leaves (extract_tree_layout [LNode [0] [LNode [0, 0] []]] (\<lambda>a. a) empty_heap))
           = (\<lambda>a. a) ` addr_of ` (\<Union>t \<in> set [LNode [0] [LNode [0, 0] []]]. set (nodes t))"
  using extract_keys_partition [of "\<lambda>a. a" "[LNode [0] [LNode [0, 0] []]]" empty_heap]
  by simp

text \<open>
  C8, as the code has it. Nothing checks the ids. When two visited nodes share an id,
  extraction returns as usual, and under that id the positions hold the entry of the node
  visited last: looking a key up in the positions is looking it up among the visited
  nodes, the latest first.
\<close>

theorem extract_last_node_wins:
  "map_of (positions (extract_tree_layout q key h))
     = map_of (rev (map (\<lambda>t. (key (addr_of t), (xpos h (addr_of t), ypos h (addr_of t)))) (bfs q)))"
  by (simp add: extract_tree_layout_eq fold_record_positions_map empty_layout_def)

text \<open>
  C8 as stated fails: with the constant id 0 the two leaves \<open>a\<close> and \<open>b\<close> collide, and the
  render operation returns a result in which \<open>b\<close> has replaced \<open>a\<close>.
\<close>

theorem colliding_ids_counterexample:
  "render_tree (build_tree [''a'', ''b'']) False 10 ''BT'' (\<lambda>h a. (0::nat))
     = Some (Inr \<lparr>branches = [], leaves = [(0, ''b'')], edges = [],
                  positions = [(0, (1, 0))]\<rparr>)"
  by (simp add: eval_defs del: eval_dels cong: eval_congs)

text \<open>
  C9 as stated fails: for the rankdir XX the render operation returns a result.
\<close>

theorem unknown_rankdir_counterexample:
  "render_tree (build_tree [''a'']) True 10 ''XX'' (\<lambda>h a. a)
     = Some (Inr \<lparr>branches = [([], [])], leaves = [([0], ''a'')], edges = [([], [0])],
                  positions = [([], (0, 0)), ([0], (0, 1))]\<rparr>)"
  by (simp add: eval_defs del: eval_dels cong: eval_congs)

text \<open>
  C10. Extraction looks at the flag \<open>is_leaf\<close> of the source node and at nothing else: the
  leaves are the visited nodes whose flag is set, the branches are the visited nodes whose
  flag is not set, each with the value of its source node, in the order of the visit (under
  a shared id the node visited last wins). The children of the layout node play no part. In
  the trie of the words a and ab, rendered with its root, the root is a branch, and the node
  of \<open>a\<close> ends a word and has the child \<open>b\<close>: its id is a key of the leaves and the parent
  end of an edge.
\<close>

theorem classification_follows_source_flag:
  "map_of (leaves (extract_tree_layout q key h))
     = map_of (rev (map (\<lambda>t. (key (addr_of t), tree_value (tree h (addr_of t))))
                      (filter (\<lambda>t. tree_is_leaf (tree h (addr_of t))) (bfs q))))
   \<and> map_of (branches (extract_tree_layout q key h))
     = map_of (rev (map (\<lambda>t. (key (addr_of t), tree_value (tree h (addr_of t))))
                      (filter (\<lambda>t. \<not> tree_is_leaf (tree h (addr_of t))) (bfs q))))
   \<and> fst ` set (leaves (extract_tree_layout q key h))
     = key ` addr_of ` {t \<in> (\<Union>u \<in> set q. set (nodes u)). tree_is_leaf (tree h (addr_of t))}
   \<and> fst ` set (branches (extract_tree_layout q key h))
     = key ` addr_of ` {t \<in> (\<Union>u \<in> set q. set (nodes u)). \<not> tree_is_leaf (tree h (addr_of t))}
   \<and> render_tree (build_tree [''a'', ''ab'']) True 10 ''TB'' (\<lambda>h a. a)
       = Some (Inr \<lparr>branches = [([], [])], leaves = [([0], ''a''), ([0, 0], ''b'')],
                    edges = [([], [0]), ([0], [0, 0])],
                    positions = [([], (0, 0)), ([0], (0, - 1)), ([0, 0], (0, - 2))]\<rparr>)"
proof (intro conjI)
  show "map_of (leaves (extract_tree_layout q key h))
     = map_of (rev (map (\<lambda>t. (key (addr_of t), tree_value (tree h (addr_of t))))
                      (filter (\<lambda>t. tree_is_leaf (tree h (addr_of t))) (bfs q))))"
    by (simp add: extract_tree_layout_eq fold_record_leaves_map empty_layout_def)
  show "map_of (branches (extract_tree_layout q key h))
     = map_of (rev (map (\<lambda>t. (key (addr_of t), tree_value (tree h (addr_of t))))
                      (filter (\<lambda>t. \<not> tree_is_leaf (tree h (addr_of t))) (bfs q))))"
    by (simp add: extract_tree_layout_eq fold_record_branches_map empty_layout_def)
  show "fst ` set (leaves (extract_tree_layout q key h))
     = key ` addr_of ` {t \<in> (\<Union>u \<in> set q. set (nodes u)). tree_is_leaf (tree h (addr_of t))}"
    by (simp add: extract_tree_layout_eq fold_record_leaves_keys empty_layout_def set_bfs)
  show "fst ` set (branches (extract_tree_layout q key h))
     = key ` addr_of ` {t \<in> (\<Union>u \<in> set q. set (nodes u)). \<not> tree_is_leaf (tree h (addr_of t))}"
    by (simp add: extract_tree_layout_eq fold_record_branches_keys empty_layout_def set_bfs)
  show "render_tree (build_tree [''a'', ''ab'']) True 10 ''TB'' (\<lambda>h a. a)
       = Some (Inr \<lparr>branches = [([], [])], leaves = [([0], ''a''), ([0, 0], ''b'')],
                    edges = [([], [0]), ([0], [0, 0])],
                    positions = [([], (0, 0)), ([0], (0, - 1)), ([0, 0], (0, - 2))]\<rparr>)"
    by (simp add: eval_defs del: eval_dels cong: eval_congs)
qed

section \<open>The layout tree after construction\<close>

text \<open>
  All the attributes of the object at one address, and what the constructor leaves in the
  attributes that the layout algorithm works on.
\<close>

definition fields_at :: "heap \<Rightarrow> addr \<Rightarrow> Tree \<times> addr list \<times> nat \<times> int \<times> addr option \<times> addr option \<times> addr \<times> real \<times> real \<times> real \<times> real \<times> real" where
  "fields_at h b = (tree h b, children h b, sibling_index h b, level h b, parent h b, thread h b,
                    ancestor h b, xpos h b, ypos h b, modv h b, change h b, shift h b)"

definition fresh_at :: "heap \<Rightarrow> addr \<Rightarrow> bool" where
  "fresh_at h b = (thread h b = None \<and> ancestor h b = b \<and> xpos h b = 0 \<and> modv h b = 0
                   \<and> change h b = 0 \<and> shift h b = 0)"

text \<open>
  \<open>built lmt h t\<close>: the store \<open>h\<close> holds, at the addresses of the tree \<open>t\<close>, the
  objects that \<open>LayoutTree.__init__\<close> builds with \<open>level_limit = lmt\<close>: the child \<open>i\<close> of
  the object at \<open>a\<close> is at \<open>a @ [i]\<close>, one level down, and knows its parent and its index.
\<close>

fun built :: "int \<Rightarrow> heap \<Rightarrow> ltree \<Rightarrow> bool" where
  "built lmt h (LNode a cs) =
     (children h a = map addr_of cs \<and> fresh_at h a \<and> ypos h a = of_int (level h a)
      \<and> (cs \<noteq> [] \<longrightarrow> level h a < lmt - 1)
      \<and> (level h a < lmt - 1 \<longrightarrow>
            map (\<lambda>c. tree h (addr_of c)) cs = map snd (tree_children (tree h a)))
      \<and> (\<forall>i < length cs. addr_of (cs ! i) = a @ [i] \<and> parent h (a @ [i]) = Some a
            \<and> sibling_index h (a @ [i]) = i \<and> level h (a @ [i]) = level h a + 1)
      \<and> (\<forall>c \<in> set cs. built lmt h c))"

lemma fields_at_eq:
  "fields_at h' b = fields_at h b \<longleftrightarrow>
     tree h' b = tree h b \<and> children h' b = children h b \<and> sibling_index h' b = sibling_index h b
     \<and> level h' b = level h b \<and> parent h' b = parent h b \<and> thread h' b = thread h b
     \<and> ancestor h' b = ancestor h b \<and> xpos h' b = xpos h b \<and> ypos h' b = ypos h b
     \<and> modv h' b = modv h b \<and> change h' b = change h b \<and> shift h' b = shift h b"
  by (auto simp: fields_at_def)

lemma built_cong:
  "built lmt h t \<Longrightarrow> (\<And>b. prefix (addr_of t) b \<Longrightarrow> fields_at h' b = fields_at h b) \<Longrightarrow> built lmt h' t"
proof (induction lmt h t rule: built.induct)
  case (1 lmt h a cs)
  have eq: "fields_at h' b = fields_at h b" if "prefix a b" for b
    using "1.prems"(2) that by simp
  have a: "fields_at h' a = fields_at h a" by (rule eq) simp
  have ch: "fields_at h' (a @ [i]) = fields_at h (a @ [i])" for i
    by (rule eq) simp
  have kids: "built lmt h' c" if c: "c \<in> set cs" for c
  proof -
    from c obtain i where i: "i < length cs" "c = cs ! i" by (metis in_set_conv_nth)
    with "1.prems"(1) have ac: "addr_of c = a @ [i]" by simp
    have "built lmt h c" using "1.prems"(1) c by simp
    moreover have "fields_at h' b = fields_at h b" if "prefix (addr_of c) b" for b
      using that ac eq by (metis prefix_order.order_trans prefixI)
    ultimately show ?thesis using "1.IH" [OF c] by blast
  qed
  have tr: "tree h' (addr_of c) = tree h (addr_of c)" if c: "c \<in> set cs" for c
  proof -
    from c obtain i where i: "i < length cs" "c = cs ! i" by (metis in_set_conv_nth)
    with "1.prems"(1) have ac: "addr_of c = a @ [i]" by simp
    show ?thesis using ch [of i] ac by (simp add: fields_at_eq)
  qed
  have m: "map (\<lambda>c. tree h' (addr_of c)) cs = map (\<lambda>c. tree h (addr_of c)) cs"
    using tr by simp
  from "1.prems"(1) have
    p1: "children h a = map addr_of cs" and p2: "fresh_at h a" and p3: "ypos h a = of_int (level h a)"
    and p4: "cs \<noteq> [] \<longrightarrow> level h a < lmt - 1"
    and p5: "level h a < lmt - 1 \<longrightarrow> map (\<lambda>c. tree h (addr_of c)) cs = map snd (tree_children (tree h a))"
    and p6: "\<forall>i < length cs. addr_of (cs ! i) = a @ [i] \<and> parent h (a @ [i]) = Some a
            \<and> sibling_index h (a @ [i]) = i \<and> level h (a @ [i]) = level h a + 1"
    by simp_all
  from a have fa: "tree h' a = tree h a" "children h' a = children h a" "level h' a = level h a"
    "thread h' a = thread h a" "ancestor h' a = ancestor h a" "xpos h' a = xpos h a"
    "ypos h' a = ypos h a" "modv h' a = modv h a" "change h' a = change h a" "shift h' a = shift h a"
    by (simp_all add: fields_at_eq)
  have fc: "parent h' (a @ [i]) = parent h (a @ [i])" "sibling_index h' (a @ [i]) = sibling_index h (a @ [i])"
    "level h' (a @ [i]) = level h (a @ [i])" for i
    using ch [of i] by (simp_all add: fields_at_eq)
  have q1: "children h' a = map addr_of cs" using p1 fa by simp
  have q2: "fresh_at h' a" using p2 fa by (simp add: fresh_at_def)
  have q3: "ypos h' a = of_int (level h' a)" using p3 fa by simp
  have q4: "cs \<noteq> [] \<longrightarrow> level h' a < lmt - 1" using p4 fa by simp
  have q5: "level h' a < lmt - 1 \<longrightarrow> map (\<lambda>c. tree h' (addr_of c)) cs = map snd (tree_children (tree h' a))"
    using p5 fa(1,3) m by (simp only:)
  have q6: "\<forall>i < length cs. addr_of (cs ! i) = a @ [i] \<and> parent h' (a @ [i]) = Some a
            \<and> sibling_index h' (a @ [i]) = i \<and> level h' (a @ [i]) = level h' a + 1"
    using p6 fa fc by simp
  have q7: "\<forall>c \<in> set cs. built lmt h' c" using kids by blast
  show ?case
    unfolding built.simps using q1 q2 q3 q4 q5 q6 q7 by blast
qed


lemma init_fields_at:
  "fields_at (init_fields h a t cs si lvl par) b =
     (if b = a then (t, cs, si, lvl, par, None, a, 0, of_int lvl, 0, 0, 0) else fields_at h b)"
  by (simp add: init_fields_def fields_at_def)

lemma not_prefix_snoc_self: "\<not> prefix (a @ [i]) a"
  by (simp add: prefix_def)

lemma prefix_snoc_snoc: "prefix (a @ [i]) b \<Longrightarrow> prefix (a @ [j]) b \<Longrightarrow> i = j"
  by (auto simp: prefix_def append_eq_append_conv2 Cons_eq_append_conv)

lemma init_built:
  "LayoutTree_init tr par si lvl lmt a h = (t, h') \<Longrightarrow>
     addr_of t = a \<and> built lmt h' t \<and> level h' a = lvl \<and> parent h' a = par
     \<and> sibling_index h' a = si \<and> tree h' a = tr
     \<and> (\<forall>b. \<not> prefix a b \<longrightarrow> fields_at h' b = fields_at h b)"
  and "init_children ch a i lvl lmt h = (cs, h') \<Longrightarrow>
     length cs = length ch
     \<and> (\<forall>j < length cs. addr_of (cs ! j) = a @ [i + j] \<and> built lmt h' (cs ! j)
           \<and> level h' (a @ [i + j]) = lvl \<and> parent h' (a @ [i + j]) = Some a
           \<and> sibling_index h' (a @ [i + j]) = i + j \<and> tree h' (a @ [i + j]) = snd (ch ! j))
     \<and> (\<forall>b. (\<forall>j < length ch. \<not> prefix (a @ [i + j]) b) \<longrightarrow> fields_at h' b = fields_at h b)"
proof (induction tr par si lvl lmt a h and ch a i lvl lmt h arbitrary: t h' and cs h'
       rule: LayoutTree_init_init_children.induct)
  case (1 v ch l par si lvl lmt a h)
  obtain cs h1 where sub: "(if lvl < lmt - 1 then init_children ch a 0 (lvl + 1) lmt h else ([], h)) = (cs, h1)"
    by (meson surj_pair)
  with "1.prems" have t: "t = LNode a cs"
    and h': "h' = init_fields h1 a (Tree v ch l) (map addr_of cs) si lvl par"
    by simp_all
  have kids: "length cs = length ch \<and> (\<forall>j < length cs. addr_of (cs ! j) = a @ [j] \<and> built lmt h1 (cs ! j)
           \<and> level h1 (a @ [j]) = lvl + 1 \<and> parent h1 (a @ [j]) = Some a
           \<and> sibling_index h1 (a @ [j]) = j \<and> tree h1 (a @ [j]) = snd (ch ! j))
     \<and> (\<forall>b. (\<forall>j < length ch. \<not> prefix (a @ [j]) b) \<longrightarrow> fields_at h1 b = fields_at h b)"
    if "lvl < lmt - 1"
    using "1.IH" [OF that] sub that by simp
  have nokids: "cs = [] \<and> h1 = h" if "\<not> lvl < lmt - 1"
    using sub that by simp
  have outside: "fields_at h1 b = fields_at h b" if "\<not> prefix a b" for b
  proof (cases "lvl < lmt - 1")
    case True
    have np: "\<not> prefix (a @ [j]) b" for j
    proof
      assume "prefix (a @ [j]) b"
      moreover have "prefix a (a @ [j])" by simp
      ultimately have "prefix a b" by (rule prefix_order.order_trans [rotated])
      with that show False by simp
    qed
    from kids [OF True] have "\<forall>b. (\<forall>j < length ch. \<not> prefix (a @ [j]) b) \<longrightarrow> fields_at h1 b = fields_at h b"
      by (elim conjE)
    then have "(\<forall>j < length ch. \<not> prefix (a @ [j]) b) \<longrightarrow> fields_at h1 b = fields_at h b" ..
    with np show ?thesis by simp
  next
    case False
    with nokids show ?thesis by simp
  qed
  have fa: "fields_at h' b = (if b = a then (Tree v ch l, map addr_of cs, si, lvl, par, None, a, 0, of_int lvl, 0, 0, 0)
                              else fields_at h1 b)" for b
    by (simp add: h' init_fields_at)
  have at_a: "children h' a = map addr_of cs" "fresh_at h' a" "ypos h' a = of_int (level h' a)"
    "level h' a = lvl" "parent h' a = par" "sibling_index h' a = si" "tree h' a = Tree v ch l"
    using fa [of a] by (simp_all add: fields_at_def fresh_at_def)
  have child_eq: "fields_at h' (a @ [j]) = fields_at h1 (a @ [j])" for j
    by (simp add: fa)
  have b1: "cs \<noteq> [] \<longrightarrow> level h' a < lmt - 1"
    using nokids at_a by auto
  have b2: "\<forall>i < length cs. addr_of (cs ! i) = a @ [i] \<and> parent h' (a @ [i]) = Some a
            \<and> sibling_index h' (a @ [i]) = i \<and> level h' (a @ [i]) = level h' a + 1"
  proof (cases "lvl < lmt - 1")
    case True
    show ?thesis using kids [OF True] child_eq at_a(4) by (simp add: fields_at_eq)
  next
    case False
    with nokids show ?thesis by simp
  qed
  have b3: "\<forall>c \<in> set cs. built lmt h' c"
  proof
    fix c assume c: "c \<in> set cs"
    have lt: "lvl < lmt - 1"
    proof (rule ccontr)
      assume "\<not> lvl < lmt - 1"
      with nokids have "cs = []" by simp
      with c show False by simp
    qed
    from c obtain j where j: "j < length cs" "c = cs ! j" by (metis in_set_conv_nth)
    with kids [OF lt] have ac: "addr_of c = a @ [j]" and bc: "built lmt h1 c" by simp_all
    have "fields_at h' b = fields_at h1 b" if "prefix (addr_of c) b" for b
    proof -
      have "b \<noteq> a" using that ac not_prefix_snoc_self by auto
      then show ?thesis by (simp add: fa)
    qed
    then show "built lmt h' c" by (rule built_cong [OF bc])
  qed
  have b4: "level h' a < lmt - 1 \<longrightarrow>
            map (\<lambda>c. tree h' (addr_of c)) cs = map snd (tree_children (tree h' a))"
  proof
    assume "level h' a < lmt - 1"
    then have lt: "lvl < lmt - 1" using at_a by simp
    have "map (\<lambda>c. tree h' (addr_of c)) cs = map snd ch"
    proof (rule nth_equalityI)
      show "length (map (\<lambda>c. tree h' (addr_of c)) cs) = length (map snd ch)"
        using kids [OF lt] by simp
    next
      fix j assume "j < length (map (\<lambda>c. tree h' (addr_of c)) cs)"
      then have j: "j < length cs" by simp
      with kids [OF lt] have "addr_of (cs ! j) = a @ [j]" "tree h1 (a @ [j]) = snd (ch ! j)"
        "length cs = length ch" by simp_all
      moreover have "tree h' (a @ [j]) = tree h1 (a @ [j])"
        using child_eq [of j] by (simp add: fields_at_eq)
      ultimately show "map (\<lambda>c. tree h' (addr_of c)) cs ! j = map snd ch ! j"
        using j by simp
    qed
    then show "map (\<lambda>c. tree h' (addr_of c)) cs = map snd (tree_children (tree h' a))"
      using at_a by simp
  qed
  have "built lmt h' (LNode a cs)"
    using at_a b1 b2 b3 b4 by simp
  moreover have "\<forall>b. \<not> prefix a b \<longrightarrow> fields_at h' b = fields_at h b"
  proof (intro allI impI)
    fix b assume nb: "\<not> prefix a b"
    then have "b \<noteq> a" by auto
    with outside [OF nb] show "fields_at h' b = fields_at h b" by (simp add: fa)
  qed
  ultimately show ?case using t at_a by simp
next
  case (2 a i lvl lmt h)
  then show ?case by simp
next
  case (3 k c rest a i lvl lmt h)
  obtain n h1 where n: "LayoutTree_init c (Some a) i lvl lmt (a @ [i]) h = (n, h1)"
    by (meson surj_pair)
  obtain ns h2 where ns: "init_children rest a (Suc i) lvl lmt h1 = (ns, h2)"
    by (meson surj_pair)
  from "3.prems" n ns have cs: "cs = n # ns" and h': "h' = h2" by simp_all
  note IH1 = "3.IH"(1) [OF n]
  note IH2 = "3.IH"(2) [OF n [symmetric] ns]
  from IH2 have IH2f: "(\<forall>j < length rest. \<not> prefix (a @ [Suc i + j]) b) \<longrightarrow> fields_at h2 b = fields_at h1 b" for b
    by (elim conjE) (erule allE)
  from IH2 have IH2l: "length ns = length rest" by (elim conjE)
  from IH2 have IH2n: "addr_of (ns ! j) = a @ [Suc i + j] \<and> built lmt h2 (ns ! j)
           \<and> level h2 (a @ [Suc i + j]) = lvl \<and> parent h2 (a @ [Suc i + j]) = Some a
           \<and> sibling_index h2 (a @ [Suc i + j]) = Suc i + j \<and> tree h2 (a @ [Suc i + j]) = snd (rest ! j)"
    if "j < length ns" for j
    using that by (elim conjE) (erule allE, erule (1) impE)
  from IH1 have IH1f: "\<not> prefix (a @ [i]) b \<longrightarrow> fields_at h1 b = fields_at h b" for b
    by (elim conjE) (erule allE)
  have len: "length cs = length ((k, c) # rest)" using IH2l cs by simp
  have keep: "fields_at h2 b = fields_at h1 b" if "prefix (a @ [i]) b" for b
  proof -
    have "\<not> prefix (a @ [Suc i + j]) b" for j
    proof
      assume "prefix (a @ [Suc i + j]) b"
      from prefix_snoc_snoc [OF that this] show False by simp
    qed
    then have "\<forall>j < length rest. \<not> prefix (a @ [Suc i + j]) b" by simp
    with IH2f show ?thesis by simp
  qed
  have first: "built lmt h2 n"
  proof (rule built_cong)
    show "built lmt h1 n" using IH1 by simp
  next
    fix b assume "prefix (addr_of n) b"
    then have "prefix (a @ [i]) b" using IH1 by simp
    then show "fields_at h2 b = fields_at h1 b" by (rule keep)
  qed
  have firstf: "level h2 (a @ [i]) = lvl" "parent h2 (a @ [i]) = Some a"
    "sibling_index h2 (a @ [i]) = i" "tree h2 (a @ [i]) = c"
    using IH1 keep [of "a @ [i]"] by (simp_all add: fields_at_eq)
  have nodes: "\<forall>j < length cs. addr_of (cs ! j) = a @ [i + j] \<and> built lmt h' (cs ! j)
           \<and> level h' (a @ [i + j]) = lvl \<and> parent h' (a @ [i + j]) = Some a
           \<and> sibling_index h' (a @ [i + j]) = i + j \<and> tree h' (a @ [i + j]) = snd (((k, c) # rest) ! j)"
  proof (intro allI impI)
    fix j assume j: "j < length cs"
    show "addr_of (cs ! j) = a @ [i + j] \<and> built lmt h' (cs ! j)
           \<and> level h' (a @ [i + j]) = lvl \<and> parent h' (a @ [i + j]) = Some a
           \<and> sibling_index h' (a @ [i + j]) = i + j \<and> tree h' (a @ [i + j]) = snd (((k, c) # rest) ! j)"
    proof (cases j)
      case 0
      with IH1 first firstf cs h' show ?thesis by simp
    next
      case (Suc m)
      with j cs have m: "m < length ns" by simp
      from IH2n [OF m] Suc cs h' show ?thesis by simp
    qed
  qed
  have frame: "\<forall>b. (\<forall>j < length ((k, c) # rest). \<not> prefix (a @ [i + j]) b) \<longrightarrow> fields_at h' b = fields_at h b"
  proof (intro allI impI)
    fix b assume np: "\<forall>j < length ((k, c) # rest). \<not> prefix (a @ [i + j]) b"
    from np [rule_format, of 0] have "\<not> prefix (a @ [i]) b" by simp
    with IH1f have e1: "fields_at h1 b = fields_at h b" by simp
    have "\<not> prefix (a @ [Suc i + j]) b" if "j < length rest" for j
      using np [rule_format, of "Suc j"] that by simp
    with IH2f have "fields_at h2 b = fields_at h1 b" by simp
    with e1 h' show "fields_at h' b = fields_at h b" by simp
  qed
  from len nodes frame show ?case by blast
qed


lemma built_addr: "built lmt h t \<Longrightarrow> c \<in> set (subtrees t) \<Longrightarrow>
  \<exists>i < length (subtrees t). c = subtrees t ! i \<and> addr_of c = addr_of t @ [i]"
  by (cases t) (auto simp: in_set_conv_nth)

lemma built_child_level:
  "built lmt h t \<Longrightarrow> c \<in> set (subtrees t) \<Longrightarrow> level h (addr_of c) = level h (addr_of t) + 1"
  by (cases t) (auto simp: in_set_conv_nth)

lemma built_child_parent:
  "built lmt h t \<Longrightarrow> c \<in> set (subtrees t) \<Longrightarrow> parent h (addr_of c) = Some (addr_of t)"
  by (cases t) (auto simp: in_set_conv_nth)

lemma built_nodes: "built lmt h t \<Longrightarrow> u \<in> set (nodes t) \<Longrightarrow> built lmt h u"
proof (induction t rule: nodes.induct)
  case (1 a ts)
  from "1.prems"(2) consider "u = LNode a ts" | c where "c \<in> set ts" "u \<in> set (nodes c)"
    by auto
  then show ?case
  proof cases
    case 1
    with "1.prems" show ?thesis by simp
  next
    case 2
    from "1.prems"(1) 2(1) have "built lmt h c" by simp
    from "1.IH" [OF 2(1) this 2(2)] show ?thesis .
  qed
qed

lemma built_level_bound:
  "built lmt h t \<Longrightarrow> u \<in> set (nodes t) \<Longrightarrow> u = t \<or> level h (addr_of u) \<le> lmt - 1"
proof (induction t rule: nodes.induct)
  case (1 a ts)
  from "1.prems"(2) consider "u = LNode a ts" | c where "c \<in> set ts" "u \<in> set (nodes c)"
    by auto
  then show ?case
  proof cases
    case 1
    then show ?thesis by simp
  next
    case 2
    from "1.prems"(1) 2(1) have bc: "built lmt h c" by simp
    from "1.IH" [OF 2(1) bc 2(2)] have "u = c \<or> level h (addr_of u) \<le> lmt - 1" .
    moreover have "level h (addr_of c) \<le> lmt - 1"
    proof -
      from 2(1) have "ts \<noteq> []" by auto
      with "1.prems"(1) have "level h a < lmt - 1" by simp
      moreover have "level h (addr_of c) = level h a + 1"
        using built_child_level [OF "1.prems"(1)] 2(1) by simp
      ultimately show ?thesis by simp
    qed
    ultimately show ?thesis by auto
  qed
qed

lemma built_shape:
  assumes "built lmt h u"
  shows "children h (addr_of u) = map addr_of (subtrees u)"
    and "map (\<lambda>c. tree h (addr_of c)) (subtrees u)
           = (if level h (addr_of u) < lmt - 1 then map snd (tree_children (tree h (addr_of u))) else [])"
    and "is_leaf h (addr_of u)
           = (lmt - 1 \<le> level h (addr_of u) \<or> tree_children (tree h (addr_of u)) = [])"
proof -
  obtain a cs where u: "u = LNode a cs" by (cases u)
  from assms u have c: "children h a = map addr_of cs"
    and p4: "cs \<noteq> [] \<longrightarrow> level h a < lmt - 1"
    and p5: "level h a < lmt - 1 \<longrightarrow> map (\<lambda>c. tree h (addr_of c)) cs = map snd (tree_children (tree h a))"
    by simp_all
  show "children h (addr_of u) = map addr_of (subtrees u)" using c u by simp
  show "map (\<lambda>c. tree h (addr_of c)) (subtrees u)
           = (if level h (addr_of u) < lmt - 1 then map snd (tree_children (tree h (addr_of u))) else [])"
    using p4 p5 u by auto
  have "(cs = []) = (lmt - 1 \<le> level h a \<or> tree_children (tree h a) = [])"
  proof (cases "level h a < lmt - 1")
    case True
    with p5 have "map (\<lambda>c. tree h (addr_of c)) cs = map snd (tree_children (tree h a))" by simp
    then have "length cs = length (tree_children (tree h a))"
      by (metis length_map)
    with True show ?thesis by auto
  next
    case False
    with p4 show ?thesis by auto
  qed
  then show "is_leaf h (addr_of u)
           = (lmt - 1 \<le> level h (addr_of u) \<or> tree_children (tree h (addr_of u)) = [])"
    using c u by (simp add: is_leaf_def)
qed

text \<open>
  C6, as the code has it. The constructor gives an object children exactly when its level
  is below \<open>level_limit - 1\<close>, then one for each child of its source node, in their order
  and one level down. So an object at level \<open>level_limit - 1\<close> or deeper has no children
  and is a leaf of the layout whatever its source node has below it, and every object other
  than the root is at level \<open>level_limit - 1\<close> at most. The root is always built.
\<close>

theorem children_built_below_limit:
  assumes "LayoutTree_init tr par si lvl lmt a h = (t, h')" and "u \<in> set (nodes t)"
  shows "addr_of t = a \<and> level h' a = lvl \<and> tree h' a = tr
       \<and> children h' (addr_of u) = map addr_of (subtrees u)
       \<and> map (\<lambda>c. tree h' (addr_of c)) (subtrees u)
           = (if level h' (addr_of u) < lmt - 1 then map snd (tree_children (tree h' (addr_of u))) else [])
       \<and> is_leaf h' (addr_of u)
           = (lmt - 1 \<le> level h' (addr_of u) \<or> tree_children (tree h' (addr_of u)) = [])
       \<and> list_all (\<lambda>c. level h' (addr_of c) = level h' (addr_of u) + 1) (subtrees u)
       \<and> (u = t \<or> level h' (addr_of u) \<le> lmt - 1)"
proof -
  from init_built(1) [OF assms(1)] have r: "addr_of t = a" "level h' a = lvl" "tree h' a = tr"
    and b: "built lmt h' t"
    by simp_all
  from built_nodes [OF b assms(2)] have bu: "built lmt h' u" .
  have lv: "list_all (\<lambda>c. level h' (addr_of c) = level h' (addr_of u) + 1) (subtrees u)"
    using built_child_level [OF bu] by (simp add: list_all_iff)
  from r built_shape [OF bu] lv built_level_bound [OF b assms(2)] show ?thesis
    by (intro conjI)
qed

text \<open>
  The trie of the word ab with the limit 2: the node of \<open>a\<close> is at level 1, its source
  node has the child \<open>b\<close>, and it is a leaf of the layout.
\<close>

theorem children_built_below_limit_witness:
  "LayoutTree_init (build_tree [''ab'']) None 0 0 2 [] empty_heap
     = (LNode [] [LNode [0] []], snd (LayoutTree_init (build_tree [''ab'']) None 0 0 2 [] empty_heap))
   \<and> LNode [0] [] \<in> set (nodes (LNode [] [LNode [0] []]))
   \<and> level (snd (LayoutTree_init (build_tree [''ab'']) None 0 0 2 [] empty_heap)) [0] = 1
   \<and> tree (snd (LayoutTree_init (build_tree [''ab'']) None 0 0 2 [] empty_heap)) [0]
        = Tree ''a'' [(CHR ''b'', Tree ''b'' [] True)] False
   \<and> is_leaf (snd (LayoutTree_init (build_tree [''ab'']) None 0 0 2 [] empty_heap)) [0]"
  using children_built_below_limit [of "build_tree [''ab'']" None 0 0 2 "[]" empty_heap
      "LNode [] [LNode [0] []]" "snd (LayoutTree_init (build_tree [''ab'']) None 0 0 2 [] empty_heap)"
      "LNode [0] []"]
  by (simp add: eval_defs del: eval_dels cong: eval_congs)

text \<open>
  C6 as stated fails: with \<open>depth_limit = 2\<close> the node of \<open>a\<close>, at level
  \<open>1 = depth_limit - 1\<close>, is in the result. The id of a node is its address and its level.
\<close>

theorem depth_limit_counterexample:
  "render_tree (build_tree [''ab'']) True 2 ''BT'' (\<lambda>h a. (a, level h a))
     = Some (Inr \<lparr>branches = [(([], 0), []), (([0], 1), ''a'')], leaves = [],
                  edges = [(([], 0), ([0], 1))],
                  positions = [(([], 0), (0, 0)), (([0], 1), (0, 1))]\<rparr>)"
  by (simp add: eval_defs del: eval_dels cong: eval_congs)

section \<open>Shift aggregation\<close>

text \<open>
  The running accumulators in the words of the specification: \<open>change\<close> takes up the
  change of the child, then \<open>shift\<close> takes up the shift of the child and the new
  \<open>change\<close>. \<open>running h ws sc k\<close> is the pair (shift, change) when \<open>k\<close> children of the list
  \<open>ws\<close> have been processed, starting from \<open>sc\<close>; \<open>received h ws sc b\<close> is what the
  object at \<open>b\<close> receives in all: the running shift at each place where it stands in \<open>ws\<close>.
\<close>

definition accumulate :: "heap \<Rightarrow> addr \<Rightarrow> real \<times> real \<Rightarrow> real \<times> real" where
  "accumulate h w sc = (case sc of (s, c) \<Rightarrow> (s + (shift h w + (c + change h w)), c + change h w))"

fun running :: "heap \<Rightarrow> addr list \<Rightarrow> real \<times> real \<Rightarrow> nat \<Rightarrow> real \<times> real" where
  "running h ws sc 0 = sc"
| "running h ws sc (Suc k) = accumulate h (ws ! k) (running h ws sc k)"

definition received :: "heap \<Rightarrow> addr list \<Rightarrow> real \<times> real \<Rightarrow> addr \<Rightarrow> real" where
  "received h ws sc b = (\<Sum>k<length ws. if ws ! k = b then fst (running h ws sc k) else 0)"

lemma running_Cons: "running h (w # ws) sc (Suc k) = running h ws (accumulate h w sc) k"
  by (induction k) simp_all

lemma running_cong:
  "shift h' = shift h \<Longrightarrow> change h' = change h \<Longrightarrow> running h' ws sc k = running h ws sc k"
  by (induction k) (simp_all add: accumulate_def)

lemma received_Nil: "received h [] sc b = 0"
  by (simp add: received_def)

lemma received_Cons:
  "received h (w # ws) sc b = (if w = b then fst sc else 0) + received h ws (accumulate h w sc) b"
proof -
  have "(\<Sum>k<length (w # ws). if (w # ws) ! k = b then fst (running h (w # ws) sc k) else 0)
      = (if w = b then fst sc else 0)
        + (\<Sum>k<length ws. if (w # ws) ! Suc k = b then fst (running h (w # ws) sc (Suc k)) else 0)"
    by (simp add: sum.lessThan_Suc_shift del: sum.lessThan_Suc running.simps(2))
  also have "\<dots> = (if w = b then fst sc else 0)
        + (\<Sum>k<length ws. if ws ! k = b then fst (running h ws (accumulate h w sc) k) else 0)"
    by (simp only: running_Cons nth_Cons_Suc)
  finally show ?thesis by (simp only: received_def)
qed

lemma received_cong:
  "shift h' = shift h \<Longrightarrow> change h' = change h \<Longrightarrow> received h' ws sc b = received h ws sc b"
  by (simp add: received_def running_cong [of h' h] cong: if_cong)

lemma shift_tree_loop_eq:
  "shift_tree_loop ws s c h
     = h\<lparr>xpos := (\<lambda>b. xpos h b + received h ws (s, c) b),
         modv := (\<lambda>b. modv h b + received h ws (s, c) b)\<rparr>"
proof (induction ws arbitrary: s c h)
  case Nil
  show ?case by (simp add: received_Nil)
next
  case (Cons w ws)
  define h2 where "h2 = h\<lparr>xpos := (xpos h)(w := xpos h w + s), modv := (modv h)(w := modv h w + s)\<rparr>"
  have sc: "shift h2 = shift h" "change h2 = change h" by (simp_all add: h2_def)
  have "shift_tree_loop (w # ws) s c h
      = shift_tree_loop ws (s + (shift h w + (c + change h w))) (c + change h w) h2"
    by (simp add: Let_def h2_def)
  also have "\<dots> = h2\<lparr>xpos := (\<lambda>b. xpos h2 b + received h2 ws (accumulate h w (s, c)) b),
                       modv := (\<lambda>b. modv h2 b + received h2 ws (accumulate h w (s, c)) b)\<rparr>"
    by (simp add: Cons.IH accumulate_def)
  also have "\<dots> = h\<lparr>xpos := (\<lambda>b. xpos h b + received h (w # ws) (s, c) b),
                      modv := (\<lambda>b. modv h b + received h (w # ws) (s, c) b)\<rparr>"
  proof -
    have r: "received h2 ws sc' b = received h ws sc' b" for b sc'
      by (rule received_cong [OF sc])
    have x: "(\<lambda>b. xpos h2 b + received h2 ws (accumulate h w (s, c)) b)
           = (\<lambda>b. xpos h b + received h (w # ws) (s, c) b)"
      unfolding r by (rule ext) (simp add: received_Cons h2_def)
    have m: "(\<lambda>b. modv h2 b + received h2 ws (accumulate h w (s, c)) b)
           = (\<lambda>b. modv h b + received h (w # ws) (s, c) b)"
      unfolding r by (rule ext) (simp add: received_Cons h2_def)
    show ?thesis
      unfolding x m by (simp add: h2_def)
  qed
  finally show ?case .
qed

lemma received_distinct:
  assumes "distinct ws" and "k < length ws"
  shows "received h ws sc (ws ! k) = fst (running h ws sc k)"
proof -
  have "(\<Sum>j<length ws. if ws ! j = ws ! k then fst (running h ws sc j) else 0)
      = (\<Sum>j<length ws. if j = k then fst (running h ws sc j) else 0)"
    by (rule sum.cong) (use assms in \<open>simp_all add: nth_eq_iff_index_eq\<close>)
  also have "\<dots> = fst (running h ws sc k)"
    using assms(2) by simp
  finally show ?thesis by (simp only: received_def)
qed

lemma received_outside: "b \<notin> set ws \<Longrightarrow> received h ws sc b = 0"
  unfolding received_def by (rule sum.neutral) auto

text \<open>
  C3. \<open>_shift_tree\<close> changes \<open>x\<close> and \<open>mod\<close> and nothing else. It goes through the children
  from the last to the first, with the two accumulators starting at 0; each place of the
  list is processed once and gives the child there the running shift of that moment, added
  to its \<open>x\<close> and to its \<open>mod\<close>; then \<open>change\<close> grows by the change of the child and
  \<open>shift\<close> by the shift of the child plus the new \<open>change\<close>. When the children are distinct
  a child receives the running shift of its own place and an object that is not a child
  receives nothing.
\<close>

theorem shift_tree_running_accumulators:
  "shift_tree h rt
     = h\<lparr>xpos := (\<lambda>b. xpos h b + received h (rev (children h rt)) (0, 0) b),
         modv := (\<lambda>b. modv h b + received h (rev (children h rt)) (0, 0) b)\<rparr>
   \<and> running h ws (0, 0) 0 = (0, 0)
   \<and> snd (running h ws (0, 0) (Suc k)) = snd (running h ws (0, 0) k) + change h (ws ! k)
   \<and> fst (running h ws (0, 0) (Suc k))
       = fst (running h ws (0, 0) k) + (shift h (ws ! k) + snd (running h ws (0, 0) (Suc k)))
   \<and> (distinct ws \<and> k < length ws \<longrightarrow> received h ws (0, 0) (ws ! k) = fst (running h ws (0, 0) k))
   \<and> (b \<notin> set ws \<longrightarrow> received h ws (0, 0) b = 0)"
  by (simp add: shift_tree_def shift_tree_loop_eq accumulate_def received_distinct received_outside
           split: prod.splits)

text \<open>
  Three children, the last one shifted by 2 against the first one as \<open>_shift_subtrees\<close>
  records it: the child in the middle moves by 1.
\<close>

definition three_children :: heap where
  "three_children = empty_heap\<lparr>children := (children empty_heap)([] := [[0], [1], [2]]),
                               shift := (shift empty_heap)([2] := 2),
                               change := (change empty_heap)([2] := - 1, [0] := 1),
                               xpos := (xpos empty_heap)([1] := 1, [2] := 4)\<rparr>"

theorem shift_tree_running_accumulators_witness:
  "distinct [[2], [1], [0::nat]] \<and> (1::nat) < length [[2], [1], [0::nat]]
   \<and> running three_children [[2], [1], [0]] (0, 0) 1 = (1, - 1)
   \<and> received three_children [[2], [1], [0]] (0, 0) [1] = 1
   \<and> xpos (shift_tree three_children []) [0] = 0
   \<and> xpos (shift_tree three_children []) [1] = 2
   \<and> xpos (shift_tree three_children []) [2] = 4"
  using shift_tree_running_accumulators [of three_children "[]" "[[2], [1], [0]]" 1 "[1]"]
  by (simp add: three_children_def empty_heap_def accumulate_def received_def)

section \<open>The first walk\<close>









section \<open>The axis transform\<close>

lemma zip_fst_map_snd:
  "zip (map fst pos) (map (g \<circ> snd) pos) = map (\<lambda>p. (fst p, g (snd p))) pos"
  by (induction pos) auto

lemma zip_fst_snd: "zip (map fst pos) (map snd pos) = pos"
  by (induction pos) auto

lemma transform_axes_TB:
  "pos \<noteq> [] \<Longrightarrow> transform_axes pos ''TB'' = Inr (map (\<lambda>(k, x, y). (k, x, - y)) pos)"
  by (simp add: transform_axes_def zip_fst_map_snd case_prod_unfold)

lemma transform_axes_LR:
  "pos \<noteq> [] \<Longrightarrow> transform_axes pos ''LR'' = Inr (map (\<lambda>(k, x, y). (k, y, - x)) pos)"
  by (simp add: transform_axes_def zip_fst_map_snd row_dot_def case_prod_unfold)

lemma transform_axes_RL:
  "pos \<noteq> [] \<Longrightarrow> transform_axes pos ''RL'' = Inr (map (\<lambda>(k, x, y). (k, - y, - x)) pos)"
  by (simp add: transform_axes_def zip_fst_map_snd row_dot_def case_prod_unfold)

lemma transform_axes_other:
  "rankdir \<notin> {''TB'', ''LR'', ''RL'', ''RADIAL''} \<Longrightarrow> transform_axes pos rankdir = Inr pos"
  by (simp add: transform_axes_def zip_fst_snd)

text \<open>
  C5, as the code has it. On a dictionary of positions that is not empty, the axis
  transform maps every raw position \<open>(x, y)\<close> to \<open>(x, -y)\<close> for TB, leaves it as it is
  for BT, and maps it to \<open>(y, -x)\<close> for LR and to \<open>(-y, -x)\<close> for RL. (The claim has
  \<open>(-y, x)\<close> for LR; the product of the row \<open>(x, y)\<close> with the matrix
  \<open>[[0, -1], [1, 0]]\<close> is \<open>(y, -x)\<close>, which is also what tests/test_layout.py expects.)
\<close>

theorem transform_axes_directions:
  assumes "pos \<noteq> []"
  shows "transform_axes pos ''TB'' = Inr (map (\<lambda>(k, x, y). (k, x, - y)) pos)
       \<and> transform_axes pos ''BT'' = Inr pos
       \<and> transform_axes pos ''LR'' = Inr (map (\<lambda>(k, x, y). (k, y, - x)) pos)
       \<and> transform_axes pos ''RL'' = Inr (map (\<lambda>(k, x, y). (k, - y, - x)) pos)"
proof -
  have "transform_axes pos ''BT'' = Inr pos"
    by (rule transform_axes_other) simp
  then show ?thesis
    using transform_axes_TB [OF assms] transform_axes_LR [OF assms] transform_axes_RL [OF assms]
    by blast
qed

text \<open>The four directions at the raw position \<open>(1/2, 1)\<close> of the node with key 000.\<close>

theorem transform_axes_directions_witness:
  "[(''000'', (1 / 2, 1))] \<noteq> ([] :: (string \<times> real \<times> real) list)
   \<and> transform_axes [(''000'', (1 / 2, 1))] ''TB'' = Inr [(''000'', (1 / 2, - 1))]
   \<and> transform_axes [(''000'', (1 / 2, 1))] ''BT'' = Inr [(''000'', (1 / 2, 1))]
   \<and> transform_axes [(''000'', (1 / 2, 1))] ''LR'' = Inr [(''000'', (1, - (1 / 2)))]
   \<and> transform_axes [(''000'', (1 / 2, 1))] ''RL'' = Inr [(''000'', (- 1, - (1 / 2)))]"
  using transform_axes_directions [of "[(''000'', (1 / 2, 1))]"] by simp

text \<open>
  C5 as stated fails for LR: the raw position \<open>(1/2, 1)\<close> is not sent to
  \<open>(-y, x) = (-1, 1/2)\<close>.
\<close>

theorem transform_axes_LR_counterexample:
  "transform_axes [(''000'', (1 / 2, 1))] ''LR'' \<noteq> Inr [(''000'', (- 1, 1 / 2))]"
  by (simp add: transform_axes_def row_dot_def)

text \<open>
  C9, as the code has it. A rankdir outside TB, BT, LR, RL and RADIAL raises nothing: every
  branch of the axis transform is skipped, the positions come back untouched, and the
  render operation returns what it returns for BT.
\<close>

theorem render_tree_unknown_rankdir:
  assumes "rankdir \<notin> {''TB'', ''BT'', ''LR'', ''RL'', ''RADIAL''}"
  shows "render_tree t keep_root depth_limit rankdir key
       = render_tree t keep_root depth_limit ''BT'' key"
proof -
  have ne: "rankdir \<noteq> ''BT''" using assms by simp
  have tr: "\<And>pos :: ('a \<times> real \<times> real) list. transform_axes pos rankdir = Inr pos"
    using assms by (intro transform_axes_other) simp
  show ?thesis
    unfolding render_tree_def using ne by (simp add: tr Let_def)
qed

text \<open>The rankdir XX on the trie of the word a.\<close>

theorem render_tree_unknown_rankdir_witness:
  "''XX'' \<notin> {''TB'', ''BT'', ''LR'', ''RL'', ''RADIAL''}
   \<and> render_tree (build_tree [''a'']) True 10 ''XX'' (\<lambda>h a. a)
     = render_tree (build_tree [''a'']) True 10 ''BT'' (\<lambda>h a. a)"
  using render_tree_unknown_rankdir [of "''XX''" "build_tree [''a'']" True 10 "\<lambda>h a. a"]
  by simp

end
